theory Spec2Isabelle
  imports Main
begin

section \<open>The formula front end of \<^verbatim>\<open>src/ss/formula.js\<close>\<close>

text \<open>
  A JavaScript string is modelled as a \<^typ>\<open>string\<close>: each \<^typ>\<open>char\<close> is one code
  unit, restricted to the range 0..255. Exceptions are values of the type \<open>error\<close>; a
  function that may throw returns \<open>error + 'a\<close> with \<^const>\<open>Inl\<close> for the throw.
\<close>

datatype error =
  Error string \<comment> \<open>\<^verbatim>\<open>Error(message)\<close>\<close>
| ReferenceError string \<comment> \<open>reading an identifier that is not bound; the identifier\<close>

subsection \<open>The token pattern \<^verbatim>\<open>LEXER\<close>\<close>

text \<open>
  The keys of \<^verbatim>\<open>TOKEN_TYPES\<close>; \<open>plus\<close>, \<open>minus\<close>, \<open>value\<close> and \<open>times\<close> carry the
  suffix \<open>_tok\<close>.
\<close>

datatype token_type =
  lparen | rparen | plus_tok | minus_tok | value_tok | quoted | times_tok | divided
| comma | whitespace | eof

text \<open>A pattern applied at the head of a text gives the length of its match there.\<close>

type_synonym pattern = "string \<Rightarrow> nat option"

definition in_range :: "char \<Rightarrow> char \<Rightarrow> char \<Rightarrow> bool" where
  "in_range lo hi c \<longleftrightarrow>
     (of_char lo :: nat) \<le> of_char c \<and> (of_char c :: nat) \<le> of_char hi"

definition is_alpha :: "char \<Rightarrow> bool" where
  \<comment> \<open>\<^verbatim>\<open>[a-zA-Z]\<close>\<close>
  "is_alpha c \<longleftrightarrow> in_range CHR ''a'' CHR ''z'' c \<or> in_range CHR ''A'' CHR ''Z'' c"

definition is_value_char :: "char \<Rightarrow> bool" where
  \<comment> \<open>\<^verbatim>\<open>[a-zA-Z0-9:-]\<close>\<close>
  "is_value_char c \<longleftrightarrow>
     is_alpha c \<or> in_range CHR ''0'' CHR ''9'' c \<or> c = CHR '':'' \<or> c = CHR ''-''"

definition is_space :: "char \<Rightarrow> bool" where
  \<comment> \<open>\<^verbatim>\<open>\s\<close> on code units below 256: TAB, LF, VT, FF, CR, SPACE and NBSP\<close>
  "is_space c \<longleftrightarrow>
     (of_char c :: nat) \<in> {9, 10, 11, 12, 13, 32, 160}"

definition lit :: "char \<Rightarrow> pattern" where
  \<comment> \<open>a single literal character\<close>
  "lit c s = (case s of [] \<Rightarrow> None | x # _ \<Rightarrow> if x = c then Some 1 else None)"

definition many1 :: "(char \<Rightarrow> bool) \<Rightarrow> pattern" where
  \<comment> \<open>a greedy character class with \<^verbatim>\<open>+\<close>, at the end of an alternative\<close>
  "many1 P s = (let n = length (takeWhile P s) in if n = 0 then None else Some n)"

definition quoted_pat :: pattern where
  \<comment> \<open>\<^verbatim>\<open>"[^"]+"\<close>: the greedy run stops at the first double quote, which must be there\<close>
  "quoted_pat s =
     (case s of
        [] \<Rightarrow> None
      | x # rest \<Rightarrow>
          if x \<noteq> CHR 0x22 then None
          else let n = length (takeWhile (\<lambda>c. c \<noteq> CHR 0x22) rest)
               in if 0 < n \<and> n < length rest then Some (n + 2) else None)"

definition LEXER :: "(token_type \<times> pattern) list" where
  "LEXER =
     [(lparen, lit CHR ''(''),
      (rparen, lit CHR '')''),
      (plus_tok, lit CHR ''+''),
      (minus_tok, lit CHR ''-''),
      (value_tok, many1 is_value_char),
      (quoted, quoted_pat),
      (times_tok, lit CHR ''*''),
      (divided, lit CHR ''/''),
      (comma, lit CHR '',''),
      (whitespace, many1 is_space)]"

text \<open>An alternation takes the first alternative, in the order written, that matches.\<close>

fun alternation :: "(token_type \<times> pattern) list \<Rightarrow> string \<Rightarrow> (token_type \<times> nat) option" where
  "alternation [] s = None"
| "alternation ((k, p) # ps) s =
     (case p s of Some n \<Rightarrow> Some (k, n) | None \<Rightarrow> alternation ps s)"

text \<open>
  The result of \<^verbatim>\<open>LEXER.exec\<close>: the index of the match, the matched text and the
  named groups in the order of the pattern. Only the group of the alternative that
  matched is defined.
\<close>

datatype match =
  Match (index: nat) (matched: string) (groups: "(token_type \<times> string option) list")

definition groups_of :: "token_type \<Rightarrow> string \<Rightarrow> (token_type \<times> string option) list" where
  "groups_of k txt = map (\<lambda>(k', p). (k', if k' = k then Some txt else None)) LEXER"

text \<open>
  Without the sticky flag the search moves forward from the start index to the first
  position where the alternation matches; \<open>search s i\<close> scans the text \<open>s\<close> that starts
  at index \<open>i\<close>. No alternative matches the empty text.
\<close>

fun search :: "string \<Rightarrow> nat \<Rightarrow> match option" where
  "search [] i = None"
| "search (c # cs) i =
     (case alternation LEXER (c # cs) of
        Some (k, n) \<Rightarrow> Some (Match i (take n (c # cs)) (groups_of k (take n (c # cs))))
      | None \<Rightarrow> search cs (Suc i))"

definition LEXER_exec :: "string \<Rightarrow> nat \<Rightarrow> match option" where
  "LEXER_exec code lastIndex = search (drop lastIndex code) lastIndex"

definition charAt :: "string \<Rightarrow> nat \<Rightarrow> string" where
  "charAt s i = (if i < length s then [s ! i] else [])"

subsection \<open>The generator \<^verbatim>\<open>tokenize\<close>\<close>

datatype Token = Token (tok_type: token_type) (tok_text: string)

text \<open>
  The state of a suspended generator: its argument, its local variables, the
  \<^verbatim>\<open>lastIndex\<close> of the global pattern, and whether the body has returned.
  \<^verbatim>\<open>type\<close> and \<^verbatim>\<open>text\<close> are declared with \<^verbatim>\<open>var\<close> and assigned together, so they
  keep their values from one turn of the loop to the next; \<open>var_type_text\<close> holds both.
  The statement \<^verbatim>\<open>expectedNextToken += text.length\<close> after the \<^verbatim>\<open>yield\<close> runs when the
  generator is resumed; the state holds its effect already. The body starts with
  \<^verbatim>\<open>LEXER.lastIndex = 0\<close>, so a fresh generator has \<^verbatim>\<open>lastIndex\<close> 0.
\<close>

record generator =
  code :: string
  expectedNextToken :: nat
  lastIndex :: nat
  var_type_text :: "(token_type \<times> string) option"
  finished :: bool

definition tokenize :: "string \<Rightarrow> generator" where
  "tokenize c =
     \<lparr>code = c, expectedNextToken = 0, lastIndex = 0, var_type_text = None,
      finished = False\<rparr>"

text \<open>The first group that is not null, if there is one.\<close>

fun first_group :: "(token_type \<times> string option) list \<Rightarrow> (token_type \<times> string) option" where
  "first_group [] = None"
| "first_group ((k, None) # gs) = first_group gs"
| "first_group ((k, Some txt) # gs) = Some (k, txt)"

text \<open>
  One call of \<^verbatim>\<open>next()\<close>: a throw, or the token yielded (\<^const>\<open>None\<close> when the
  generator is done) with the state after it. A failed \<^verbatim>\<open>exec\<close> resets
  \<^verbatim>\<open>lastIndex\<close> to 0; a successful one moves it to the end of the match.
\<close>

definition generator_next :: "generator \<Rightarrow> error + (Token option \<times> generator)" where
  "generator_next g =
     (if finished g then Inr (None, g)
      else case LEXER_exec (code g) (lastIndex g) of
        None \<Rightarrow>
          if expectedNextToken g \<noteq> length (code g)
          then Inl (Error (''Unexpected token end '' @ charAt (code g) (expectedNextToken g)))
          else Inr (None, g\<lparr>lastIndex := 0, finished := True\<rparr>)
      | Some m \<Rightarrow>
          if index m \<noteq> expectedNextToken g
          then Inl (Error (''Unexpected token '' @ charAt (code g) (expectedNextToken g)))
          else
            (let v = (case first_group (groups m) of
                        None \<Rightarrow> var_type_text g
                      | Some kt \<Rightarrow> Some kt)
             in (case v of
                   None \<Rightarrow> Inl (Error ''All groups empty!'')
                 | Some (k, t) \<Rightarrow>
                     Inr (Some (Token k t),
                          g\<lparr>expectedNextToken := expectedNextToken g + length t,
                            lastIndex := index m + length (matched m),
                            var_type_text := v\<rparr>))))"

definition gen_left :: "generator \<Rightarrow> nat" where
  \<comment> \<open>a bound on the calls of \<^verbatim>\<open>next()\<close> that can still yield\<close>
  "gen_left g = (if finished g then 0 else Suc (length (code g) - lastIndex g))"

subsection \<open>What a yielded token says about the scan\<close>

lemma lit_bounds: "lit c s = Some n \<Longrightarrow> 0 < n \<and> n \<le> length s"
  by (auto simp: lit_def split: list.splits if_splits)

lemma many1_bounds: "many1 P s = Some n \<Longrightarrow> 0 < n \<and> n \<le> length s"
  by (auto simp: many1_def Let_def length_takeWhile_le split: if_splits)

lemma quoted_pat_bounds: "quoted_pat s = Some n \<Longrightarrow> 0 < n \<and> n \<le> length s"
  by (auto simp: quoted_pat_def Let_def split: list.splits if_splits)

lemma alternation_kind:
  "alternation ps s = Some (k, n) \<Longrightarrow> \<exists>p. (k, p) \<in> set ps \<and> p s = Some n"
  by (induction ps s rule: alternation.induct) (auto split: option.splits)

lemma alternation_LEXER_bounds:
  assumes "alternation LEXER s = Some (k, n)"
  shows "0 < n \<and> n \<le> length s \<and> k \<in> fst ` set LEXER"
proof -
  obtain p where p: "(k, p) \<in> set LEXER" "p s = Some n"
    using alternation_kind [OF assms] by blast
  from p(1) have "(\<exists>c. p = lit c) \<or> (\<exists>P. p = many1 P) \<or> p = quoted_pat"
    by (auto simp: LEXER_def)
  with p(2) have "0 < n \<and> n \<le> length s"
    using lit_bounds many1_bounds quoted_pat_bounds by blast
  moreover have "k \<in> fst ` set LEXER" using p(1) by force
  ultimately show ?thesis by simp
qed

lemma first_group_groups_of:
  "k \<in> fst ` set LEXER \<Longrightarrow> first_group (groups_of k txt) = Some (k, txt)"
  by (auto simp: groups_of_def LEXER_def)

lemma search_Some:
  "search s i = Some m \<Longrightarrow>
     i \<le> index m \<and> 0 < length (matched m) \<and> index m + length (matched m) \<le> i + length s \<and>
     matched m = take (length (matched m)) (drop (index m - i) s) \<and>
     (\<exists>k. alternation LEXER (drop (index m - i) s) = Some (k, length (matched m)) \<and>
          first_group (groups m) = Some (k, matched m))"
proof (induction s i rule: search.induct)
  case (1 i)
  then show ?case by simp
next
  case (2 c cs i)
  show ?case
  proof (cases "alternation LEXER (c # cs)")
    case None
    with 2 have "search cs (Suc i) = Some m" by simp
    from "2.IH" [OF None this] have ih:
      "Suc i \<le> index m" "0 < length (matched m)"
      "index m + length (matched m) \<le> Suc i + length cs"
      "matched m = take (length (matched m)) (drop (index m - Suc i) cs)"
      "\<exists>k. alternation LEXER (drop (index m - Suc i) cs) = Some (k, length (matched m)) \<and>
           first_group (groups m) = Some (k, matched m)"
      by blast+
    from ih(1) have d: "index m - i = Suc (index m - Suc i)" by simp
    show ?thesis using ih by (simp add: d)
  next
    case (Some kn)
    obtain k n where kn: "kn = (k, n)" by (cases kn)
    from alternation_LEXER_bounds Some kn
    have b: "0 < n" "n \<le> length (c # cs)" "k \<in> fst ` set LEXER" by blast+
    from 2(2) Some kn have m: "m = Match i (take n (c # cs)) (groups_of k (take n (c # cs)))"
      by simp
    show ?thesis using b Some kn
      by (simp add: m first_group_groups_of min_def)
  qed
qed

lemma LEXER_exec_Some:
  assumes "LEXER_exec c i = Some m"
  shows "i \<le> index m" "0 < length (matched m)" "index m + length (matched m) \<le> length c"
    "matched m = take (length (matched m)) (drop (index m) c)"
    "\<exists>k. alternation LEXER (drop (index m) c) = Some (k, length (matched m)) \<and>
         first_group (groups m) = Some (k, matched m)"
proof -
  from assms have s: "search (drop i c) i = Some m" by (simp add: LEXER_exec_def)
  have ne: "drop i c \<noteq> []" using s by (cases "drop i c") auto
  then have ic: "i < length c" by simp
  note f = search_Some [OF s]
  from f show "i \<le> index m" "0 < length (matched m)" by blast+
  then have d: "drop (index m - i) (drop i c) = drop (index m) c" by simp
  from f ic show "index m + length (matched m) \<le> length c" by simp
  from f d show "matched m = take (length (matched m)) (drop (index m) c)" by metis
  from f d show "\<exists>k. alternation LEXER (drop (index m) c) = Some (k, length (matched m)) \<and>
         first_group (groups m) = Some (k, matched m)" by metis
qed

lemma generator_next_yield:
  assumes "generator_next g = Inr (Some t, g')"
  shows "\<not> finished g" "\<not> finished g'" "code g' = code g"
    "lastIndex g \<le> expectedNextToken g"
    "lastIndex g' = expectedNextToken g'"
    "expectedNextToken g' = expectedNextToken g + length (tok_text t)"
    "0 < length (tok_text t)"
    "expectedNextToken g' \<le> length (code g)"
    "tok_text t = take (length (tok_text t)) (drop (expectedNextToken g) (code g))"
    "alternation LEXER (drop (expectedNextToken g) (code g)) = Some (tok_type t, length (tok_text t))"
proof -
  from assms show nf: "\<not> finished g" by (auto simp: generator_next_def)
  from assms nf obtain m where m: "LEXER_exec (code g) (lastIndex g) = Some m"
    by (auto simp: generator_next_def split: option.splits if_splits)
  from assms nf m have ix: "index m = expectedNextToken g"
    by (auto simp: generator_next_def split: if_splits)
  note f = LEXER_exec_Some [OF m]
  from f(5) obtain k where k: "alternation LEXER (drop (index m) (code g)) = Some (k, length (matched m))"
    "first_group (groups m) = Some (k, matched m)" by blast
  from assms nf m ix k have t: "t = Token k (matched m)"
    and g': "g' = g\<lparr>expectedNextToken := expectedNextToken g + length (matched m),
                     lastIndex := index m + length (matched m),
                     var_type_text := Some (k, matched m)\<rparr>"
    by (auto simp: generator_next_def)
  show "\<not> finished g'" using nf by (simp add: g')
  show "code g' = code g" by (simp add: g')
  show "lastIndex g \<le> expectedNextToken g" using f(1) ix by simp
  show "lastIndex g' = expectedNextToken g'" by (simp add: g' ix)
  show "expectedNextToken g' = expectedNextToken g + length (tok_text t)" by (simp add: g' t)
  show "0 < length (tok_text t)" using f(2) by (simp add: t)
  show "expectedNextToken g' \<le> length (code g)" using f(3) by (simp add: g' ix)
  show "tok_text t = take (length (tok_text t)) (drop (expectedNextToken g) (code g))"
    using f(4) by (simp add: t ix)
  show "alternation LEXER (drop (expectedNextToken g) (code g)) = Some (tok_type t, length (tok_text t))"
    using k(1) by (simp add: t ix)
qed

lemma generator_next_left:
  assumes "generator_next g = Inr (Some t, g')"
  shows "gen_left g' < gen_left g"
proof -
  note f = generator_next_yield [OF assms]
  from f(4,5,6,7,8) have "lastIndex g < lastIndex g'" "lastIndex g' \<le> length (code g)" by linarith+
  with f(1,2,3) show ?thesis by (simp add: gen_left_def)
qed

lemma generator_next_done:
  "generator_next g = Inr (None, g') \<Longrightarrow> finished g'"
  by (auto simp: generator_next_def Let_def split: if_splits option.splits)

subsection \<open>The parser's cursor\<close>

definition TOKEN_TYPES :: "token_type \<Rightarrow> string" where
  "TOKEN_TYPES k =
     (case k of
        lparen \<Rightarrow> ''(''
      | rparen \<Rightarrow> '')''
      | plus_tok \<Rightarrow> ''+''
      | minus_tok \<Rightarrow> ''-''
      | value_tok \<Rightarrow> ''a literal value''
      | quoted \<Rightarrow> ''a quoted string''
      | times_tok \<Rightarrow> ''*''
      | divided \<Rightarrow> ''/''
      | comma \<Rightarrow> '',''
      | whitespace \<Rightarrow> ''whitespace''
      | eof \<Rightarrow> ''[end of string]'')"

text \<open>
  \<^verbatim>\<open>attemptedTypes\<close> is a \<^verbatim>\<open>Set\<close>, which iterates in insertion order: a list without
  repetition, \<^verbatim>\<open>add\<close> appending what is not there yet.
\<close>

definition set_add :: "'a \<Rightarrow> 'a list \<Rightarrow> 'a list" where
  "set_add x xs = (if x \<in> set xs then xs else xs @ [x])"

record Parser =
  tokenIter :: generator
  attemptedTypes :: "token_type list"
  cur :: Token

text \<open>
  \<^verbatim>\<open>advance\<close> pulls the next token, clears the attempted kinds and skips whitespace
  by calling itself. It never reads \<^verbatim>\<open>cur\<close>.
\<close>

function advance :: "Parser \<Rightarrow> error + Parser" where
  "advance p =
     (case generator_next (tokenIter p) of
        Inl e \<Rightarrow> Inl e
      | Inr (nxt, g) \<Rightarrow>
          let p' = p\<lparr>tokenIter := g, attemptedTypes := [],
                       cur := (case nxt of None \<Rightarrow> Token eof [] | Some t \<Rightarrow> t)\<rparr>
          in if tok_type (cur p') = whitespace then advance p' else Inr p')"
  by pat_completeness auto
termination
proof (relation "measure (\<lambda>p. gen_left (tokenIter p))")
  show "wf (measure (\<lambda>p. gen_left (tokenIter p)))" by simp
next
  fix p :: Parser and x nxt g p'
  assume nx: "generator_next (tokenIter p) = Inr x" "(nxt, g) = x"
    and p': "p' = p\<lparr>tokenIter := g, attemptedTypes := [],
                       cur := (case nxt of None \<Rightarrow> Token eof [] | Some t \<Rightarrow> t)\<rparr>"
    and ws: "tok_type (cur p') = whitespace"
  from ws p' obtain t where "nxt = Some t" by (cases nxt) auto
  with nx have "generator_next (tokenIter p) = Inr (Some t, g)" by simp
  from generator_next_left [OF this] show "(p', p) \<in> measure (\<lambda>p. gen_left (tokenIter p))"
    by (simp add: p')
qed

text \<open>The constructor: no kind attempted yet, then the first \<^verbatim>\<open>advance\<close> sets \<^verbatim>\<open>cur\<close>.\<close>

definition new_Parser :: "generator \<Rightarrow> error + Parser" where
  "new_Parser g = advance \<lparr>tokenIter = g, attemptedTypes = [], cur = Token eof []\<rparr>"

definition consume :: "token_type \<Rightarrow> Parser \<Rightarrow> error + (Token option \<times> Parser)" where
  "consume ty p =
     (if tok_type (cur p) = ty
      then case advance p of Inl e \<Rightarrow> Inl e | Inr p' \<Rightarrow> Inr (Some (cur p), p')
      else Inr (None, p\<lparr>attemptedTypes := set_add ty (attemptedTypes p)\<rparr>))"

fun join :: "string \<Rightarrow> string list \<Rightarrow> string" where
  "join sep [] = []"
| "join sep [x] = x"
| "join sep (x # y # ys) = x @ sep @ join sep (y # ys)"

definition throwUnexpectedToken :: "Parser \<Rightarrow> error" where
  "throwUnexpectedToken p =
     (let desc = join '', '' (map TOKEN_TYPES (attemptedTypes p));
          got = (if tok_type (cur p) = eof then TOKEN_TYPES eof
                 else [CHR 0x27] @ tok_text (cur p) @ [CHR 0x27])
      in Error (''Expected one of: '' @ desc @ ''; got '' @ got))"

definition expect :: "token_type \<Rightarrow> Parser \<Rightarrow> error + Parser" where
  "expect ty p =
     (case consume ty p of
        Inl e \<Rightarrow> Inl e
      | Inr (None, p') \<Rightarrow> Inl (throwUnexpectedToken p')
      | Inr (Some t, p') \<Rightarrow> Inr p')"


subsection \<open>The grammar\<close>

text \<open>
  A parse result is a string or an array whose elements are parse results: the leaf
  \<^verbatim>\<open>"A1"\<close> is \<open>Str ''A1''\<close>, the node \<^verbatim>\<open>["+", "1", "2"]\<close> is
  \<open>Arr [Str ''+'', Str ''1'', Str ''2'']\<close>.
\<close>

datatype tree = Str string | Arr "tree list"

definition FUNCTION_NAME :: "string \<Rightarrow> bool" where
  \<comment> \<open>\<^verbatim>\<open>/^[a-zA-Z]+$/.test(s)\<close>\<close>
  "FUNCTION_NAME s \<longleftrightarrow> s \<noteq> [] \<and> list_all is_alpha s"

definition strip_quotes :: "string \<Rightarrow> string" where
  \<comment> \<open>\<^verbatim>\<open>s.replace(/(^"|"$)/g, '')\<close>: a double quote at the start goes, then one at the end\<close>
  "strip_quotes s =
     (let s1 = (case s of [] \<Rightarrow> [] | c # cs \<Rightarrow> if c = CHR 0x22 then cs else s)
      in if s1 \<noteq> [] \<and> last s1 = CHR 0x22 then butlast s1 else s1)"

text \<open>
  The methods of the grammar, each taking the parser and returning the value with the
  parser after it. The \<^verbatim>\<open>while (true)\<close> statement of \<^verbatim>\<open>sum\<close> is \<open>sum_loop\<close> and that
  of \<^verbatim>\<open>summand\<close> is \<open>summand_loop\<close>; both carry the variable \<^verbatim>\<open>tm\<close>. The method
  \<^verbatim>\<open>sum\<close> is \<open>sum_rule\<close> here. In \<^verbatim>\<open>arglist\<close> the body of the \<^verbatim>\<open>while\<close> statement is
  \<^verbatim>\<open>tm.push(this.consume(expr))\<close>: its argument \<^verbatim>\<open>expr\<close> is an identifier that the
  module binds nowhere, so evaluating it throws a \<^verbatim>\<open>ReferenceError\<close> as soon as a
  comma has been consumed.
\<close>

function expr :: "Parser \<Rightarrow> error + (tree \<times> Parser)"
  and sum_rule :: "Parser \<Rightarrow> error + (tree \<times> Parser)"
  and sum_loop :: "tree \<Rightarrow> Parser \<Rightarrow> error + (tree \<times> Parser)"
  and summand :: "Parser \<Rightarrow> error + (tree \<times> Parser)"
  and summand_loop :: "tree \<Rightarrow> Parser \<Rightarrow> error + (tree \<times> Parser)"
  and factor :: "Parser \<Rightarrow> error + (tree \<times> Parser)"
  and arglist :: "Parser \<Rightarrow> error + (tree list \<times> Parser)"
where
  "expr p = sum_rule p"
| "sum_rule p =
     (case summand p of
        Inl e \<Rightarrow> Inl e
      | Inr (tm, p1) \<Rightarrow> sum_loop tm p1)"
| "sum_loop tm p =
     (case consume plus_tok p of
        Inl e \<Rightarrow> Inl e
      | Inr (Some t, p1) \<Rightarrow>
          (case summand p1 of
             Inl e \<Rightarrow> Inl e
           | Inr (r, p2) \<Rightarrow> sum_loop (Arr [Str ''+'', tm, r]) p2)
      | Inr (None, p1) \<Rightarrow>
          (case consume minus_tok p1 of
             Inl e \<Rightarrow> Inl e
           | Inr (Some t, p2) \<Rightarrow>
               (case summand p2 of
                  Inl e \<Rightarrow> Inl e
                | Inr (r, p3) \<Rightarrow> sum_loop (Arr [Str ''-'', tm, r]) p3)
           | Inr (None, p2) \<Rightarrow> Inr (tm, p2)))"
| "summand p =
     (case factor p of
        Inl e \<Rightarrow> Inl e
      | Inr (tm, p1) \<Rightarrow> summand_loop tm p1)"
| "summand_loop tm p =
     (case consume times_tok p of
        Inl e \<Rightarrow> Inl e
      | Inr (Some t, p1) \<Rightarrow>
          (case factor p1 of
             Inl e \<Rightarrow> Inl e
           | Inr (r, p2) \<Rightarrow> summand_loop (Arr [Str ''*'', tm, r]) p2)
      | Inr (None, p1) \<Rightarrow>
          (case consume divided p1 of
             Inl e \<Rightarrow> Inl e
           | Inr (Some t, p2) \<Rightarrow>
               (case factor p2 of
                  Inl e \<Rightarrow> Inl e
                | Inr (r, p3) \<Rightarrow> summand_loop (Arr [Str ''/'', tm, r]) p3)
           | Inr (None, p2) \<Rightarrow> Inr (tm, p2)))"
| "factor p =
     (case consume value_tok p of
        Inl e \<Rightarrow> Inl e
      | Inr (Some tm, p1) \<Rightarrow>
          (case consume lparen p1 of
             Inl e \<Rightarrow> Inl e
           | Inr (Some t, p2) \<Rightarrow>
               let name = tok_text tm
               in if \<not> FUNCTION_NAME name
                  then Inl (Error (name @ '' is not a valid function name''))
                  else (case arglist p2 of
                          Inl e \<Rightarrow> Inl e
                        | Inr (args, p3) \<Rightarrow>
                            (case expect rparen p3 of
                               Inl e \<Rightarrow> Inl e
                             | Inr p4 \<Rightarrow> Inr (Arr (Str name # args), p4)))
           | Inr (None, p2) \<Rightarrow> Inr (Str (tok_text tm), p2))
      | Inr (None, p1) \<Rightarrow>
          (case consume quoted p1 of
             Inl e \<Rightarrow> Inl e
           | Inr (Some tm, p2) \<Rightarrow> Inr (Str (strip_quotes (tok_text tm)), p2)
           | Inr (None, p2) \<Rightarrow>
               (case consume lparen p2 of
                  Inl e \<Rightarrow> Inl e
                | Inr (Some t, p3) \<Rightarrow>
                    (case expr p3 of
                       Inl e \<Rightarrow> Inl e
                     | Inr (tm, p4) \<Rightarrow>
                         (case expect rparen p4 of
                            Inl e \<Rightarrow> Inl e
                          | Inr p5 \<Rightarrow> Inr (tm, p5)))
                | Inr (None, p3) \<Rightarrow> Inl (throwUnexpectedToken p3))))"
| "arglist p =
     (case expr p of
        Inl e \<Rightarrow> Inl e
      | Inr (tm, p1) \<Rightarrow>
          (case consume comma p1 of
             Inl e \<Rightarrow> Inl e
           | Inr (Some t, p2) \<Rightarrow> Inl (ReferenceError ''expr'')
           | Inr (None, p2) \<Rightarrow> Inr ([tm], p2)))"
  by pat_completeness auto

text \<open>
  Termination: the grammar calls itself on a parser that has fewer tokens left, or on
  the same parser from a method that comes later in the call order
  \<^verbatim>\<open>arglist\<close>, \<^verbatim>\<open>expr\<close>, \<^verbatim>\<open>sum\<close>, \<^verbatim>\<open>summand\<close>, \<^verbatim>\<open>factor\<close>.
\<close>

definition tokens_left :: "Parser \<Rightarrow> nat" where
  "tokens_left p = gen_left (tokenIter p) + (if tok_type (cur p) = eof then 0 else 1)"

lemma advance_left: "advance p = Inr p' \<Longrightarrow> tokens_left p' \<le> gen_left (tokenIter p)"
proof (induction p rule: advance.induct)
  case (1 p)
  from "1.prems" obtain nxt g where nx: "generator_next (tokenIter p) = Inr (nxt, g)"
    by (auto split: sum.splits)
  define p1 where "p1 = p\<lparr>tokenIter := g, attemptedTypes := [],
                       cur := (case nxt of None \<Rightarrow> Token eof [] | Some t \<Rightarrow> t)\<rparr>"
  show ?case
  proof (cases nxt)
    case None
    with nx "1.prems" have "p' = p1" by (simp add: p1_def)
    moreover have "finished g" using generator_next_done nx None by blast
    ultimately show ?thesis using None by (simp add: tokens_left_def p1_def gen_left_def)
  next
    case (Some t)
    with nx have lt: "gen_left g < gen_left (tokenIter p)" using generator_next_left by blast
    show ?thesis
    proof (cases "tok_type (cur p1) = whitespace")
      case True
      with nx "1.prems" have "advance p1 = Inr p'" by (simp add: p1_def Let_def)
      from "1.IH" [OF nx refl p1_def True this] lt show ?thesis by (simp add: p1_def)
    next
      case False
      with nx "1.prems" have "p' = p1" by (simp add: p1_def Let_def)
      with lt show ?thesis by (simp add: tokens_left_def p1_def)
    qed
  qed
qed

lemma consume_left:
  assumes "consume ty p = Inr (x, p')"
  shows "tokens_left p' \<le> tokens_left p"
    and "x \<noteq> None \<Longrightarrow> ty \<noteq> eof \<Longrightarrow> tokens_left p' < tokens_left p"
  using assms advance_left [of p p']
  by (auto simp: consume_def tokens_left_def split: if_splits sum.splits)

lemma expect_left: "expect ty p = Inr p' \<Longrightarrow> tokens_left p' \<le> tokens_left p"
  using consume_left(1) [of ty p]
  by (auto simp: expect_def split: sum.splits option.splits)


abbreviation "gdom \<equiv> expr_sum_rule_sum_loop_summand_summand_loop_factor_arglist_dom"

lemma grammar_left:
  "gdom (Inl (Inl a)) \<Longrightarrow> (\<forall>t q. expr a = Inr (t, q) \<longrightarrow> tokens_left q \<le> tokens_left a)"
  "gdom (Inl (Inr (Inl b))) \<Longrightarrow> (\<forall>t q. sum_rule b = Inr (t, q) \<longrightarrow> tokens_left q \<le> tokens_left b)"
  "gdom (Inl (Inr (Inr (tm1, c)))) \<Longrightarrow> (\<forall>t q. sum_loop tm1 c = Inr (t, q) \<longrightarrow> tokens_left q \<le> tokens_left c)"
  "gdom (Inr (Inl (Inl d))) \<Longrightarrow> (\<forall>t q. summand d = Inr (t, q) \<longrightarrow> tokens_left q \<le> tokens_left d)"
  "gdom (Inr (Inl (Inr (tm2, e)))) \<Longrightarrow> (\<forall>t q. summand_loop tm2 e = Inr (t, q) \<longrightarrow> tokens_left q \<le> tokens_left e)"
  "gdom (Inr (Inr (Inl f))) \<Longrightarrow> (\<forall>t q. factor f = Inr (t, q) \<longrightarrow> tokens_left q \<le> tokens_left f)"
  "gdom (Inr (Inr (Inr g))) \<Longrightarrow> (\<forall>ts q. arglist g = Inr (ts, q) \<longrightarrow> tokens_left q \<le> tokens_left g)"
proof (induct rule: expr_sum_rule_sum_loop_summand_summand_loop_factor_arglist.pinduct)
  case (1 p)
  then show ?case by (simp add: expr.psimps)
next
  case (2 p)
  then show ?case
    by (auto simp: sum_rule.psimps split: sum.splits prod.splits) (meson order_trans)
next
  case (3 tm p)
  show ?case
  proof (intro allI impI)
    fix t q assume r: "sum_loop tm p = Inr (t, q)"
    note r = r [unfolded sum_loop.psimps [OF "3.hyps"(1)]]
    from r obtain x p1 where c1: "consume plus_tok p = Inr (x, p1)"
      by (auto split: sum.splits)
    note l1 = consume_left(1) [OF c1]
    show "tokens_left q \<le> tokens_left p"
    proof (cases x)
      case (Some t0)
      from r c1 Some obtain v p2 where s: "summand p1 = Inr (v, p2)"
        and l: "sum_loop (Arr [Str ''+'', tm, v]) p2 = Inr (t, q)"
        by (auto split: sum.splits)
      from "3.hyps"(4) [OF c1 refl Some] s have "tokens_left p2 \<le> tokens_left p1" by blast
      moreover from "3.hyps"(5) [OF c1 refl Some s refl] l have "tokens_left q \<le> tokens_left p2" by blast
      ultimately show ?thesis using l1 by linarith
    next
      case None
      from r c1 None obtain y p2 where c2: "consume minus_tok p1 = Inr (y, p2)"
        by (auto split: sum.splits)
      note l2 = consume_left(1) [OF c2]
      show ?thesis
      proof (cases y)
        case None' : None
        with r c1 None c2 have "q = p2" by simp
        with l1 l2 show ?thesis by simp
      next
        case (Some t0)
        from r c1 None c2 Some obtain v p3 where s: "summand p2 = Inr (v, p3)"
          and l: "sum_loop (Arr [Str ''-'', tm, v]) p3 = Inr (t, q)"
          by (auto split: sum.splits)
        from "3.hyps"(2) [OF c1 refl None c2 refl Some] s have "tokens_left p3 \<le> tokens_left p2" by blast
        moreover from "3.hyps"(3) [OF c1 refl None c2 refl Some s refl] l
        have "tokens_left q \<le> tokens_left p3" by blast
        ultimately show ?thesis using l1 l2 by linarith
      qed
    qed
  qed
next
  case (4 p)
  then show ?case
    by (auto simp: summand.psimps split: sum.splits prod.splits) (meson order_trans)
next
  case (5 tm p)
  show ?case
  proof (intro allI impI)
    fix t q assume r: "summand_loop tm p = Inr (t, q)"
    note r = r [unfolded summand_loop.psimps [OF "5.hyps"(1)]]
    from r obtain x p1 where c1: "consume times_tok p = Inr (x, p1)"
      by (auto split: sum.splits)
    note l1 = consume_left(1) [OF c1]
    show "tokens_left q \<le> tokens_left p"
    proof (cases x)
      case (Some t0)
      from r c1 Some obtain v p2 where s: "factor p1 = Inr (v, p2)"
        and l: "summand_loop (Arr [Str ''*'', tm, v]) p2 = Inr (t, q)"
        by (auto split: sum.splits)
      from "5.hyps"(4) [OF c1 refl Some] s have "tokens_left p2 \<le> tokens_left p1" by blast
      moreover from "5.hyps"(5) [OF c1 refl Some s refl] l have "tokens_left q \<le> tokens_left p2" by blast
      ultimately show ?thesis using l1 by linarith
    next
      case None
      from r c1 None obtain y p2 where c2: "consume divided p1 = Inr (y, p2)"
        by (auto split: sum.splits)
      note l2 = consume_left(1) [OF c2]
      show ?thesis
      proof (cases y)
        case None' : None
        with r c1 None c2 have "q = p2" by simp
        with l1 l2 show ?thesis by simp
      next
        case (Some t0)
        from r c1 None c2 Some obtain v p3 where s: "factor p2 = Inr (v, p3)"
          and l: "summand_loop (Arr [Str ''/'', tm, v]) p3 = Inr (t, q)"
          by (auto split: sum.splits)
        from "5.hyps"(2) [OF c1 refl None c2 refl Some] s have "tokens_left p3 \<le> tokens_left p2" by blast
        moreover from "5.hyps"(3) [OF c1 refl None c2 refl Some s refl] l
        have "tokens_left q \<le> tokens_left p3" by blast
        ultimately show ?thesis using l1 l2 by linarith
      qed
    qed
  qed
next
  case (6 p)
  show ?case
  proof (intro allI impI)
    fix t q assume r: "factor p = Inr (t, q)"
    note r = r [unfolded factor.psimps [OF "6.hyps"(1)]]
    from r obtain x p1 where c1: "consume value_tok p = Inr (x, p1)"
      by (auto split: sum.splits)
    note l1 = consume_left(1) [OF c1]
    show "tokens_left q \<le> tokens_left p"
    proof (cases x)
      case (Some tm)
      from r c1 Some obtain y p2 where c2: "consume lparen p1 = Inr (y, p2)"
        by (auto split: sum.splits)
      note l2 = consume_left(1) [OF c2]
      show ?thesis
      proof (cases y)
        case None
        with r c1 Some c2 have "q = p2" by simp
        with l1 l2 show ?thesis by simp
      next
        case Some' : (Some t0)
        from r c1 Some c2 Some' have fn: "FUNCTION_NAME (tok_text tm)"
          by (auto simp: Let_def split: if_splits)
        from r c1 Some c2 Some' fn obtain args p3 where a: "arglist p2 = Inr (args, p3)"
          and e: "expect rparen p3 = Inr q"
          by (auto simp: Let_def split: sum.splits)
        from "6.hyps"(3) [OF c1 refl Some c2 refl Some' refl] fn a
        have "tokens_left p3 \<le> tokens_left p2" by blast
        with expect_left [OF e] l1 l2 show ?thesis by linarith
      qed
    next
      case None
      from r c1 None obtain y p2 where c2: "consume quoted p1 = Inr (y, p2)"
        by (auto split: sum.splits)
      note l2 = consume_left(1) [OF c2]
      show ?thesis
      proof (cases y)
        case (Some tm)
        with r c1 None c2 have "q = p2" by simp
        with l1 l2 show ?thesis by simp
      next
        case None' : None
        from r c1 None c2 None' obtain z p3 where c3: "consume lparen p2 = Inr (z, p3)"
          by (auto split: sum.splits)
        note l3 = consume_left(1) [OF c3]
        from r c1 None c2 None' c3 obtain t0 where z: "z = Some t0" by (cases z) auto
        from r c1 None c2 None' c3 z obtain p4 where a: "expr p3 = Inr (t, p4)"
          and e: "expect rparen p4 = Inr q"
          by (auto split: sum.splits)
        from "6.hyps"(2) [OF c1 refl None c2 refl None' c3 refl z] a
        have "tokens_left p4 \<le> tokens_left p3" by blast
        with expect_left [OF e] l1 l2 l3 show ?thesis by linarith
      qed
    qed
  qed
next
  case (7 p)
  then show ?case
    by (auto simp: arglist.psimps split: sum.splits prod.splits option.splits dest!: consume_left(1)) 
qed

type_synonym grammar_call =
  "(Parser + (Parser + tree \<times> Parser)) + ((Parser + tree \<times> Parser) + (Parser + Parser))"

definition call_state :: "grammar_call \<Rightarrow> Parser" where
  "call_state = case_sum (case_sum id (case_sum id snd)) (case_sum (case_sum id snd) (case_sum id id))"

definition call_rank :: "grammar_call \<Rightarrow> nat" where
  "call_rank = case_sum (case_sum (\<lambda>_. 6) (case_sum (\<lambda>_. 5) (\<lambda>_. 4)))
                 (case_sum (case_sum (\<lambda>_. 3) (\<lambda>_. 2)) (case_sum (\<lambda>_. 1) (\<lambda>_. 7)))"


lemma consume_left_both:
  "consume ty p = Inr (x, p') \<Longrightarrow>
     tokens_left p' \<le> tokens_left p \<and> (x \<noteq> None \<and> ty \<noteq> eof \<longrightarrow> tokens_left p' < tokens_left p)"
  using consume_left [of ty p x p'] by blast

lemma summand_left:
  "gdom (Inr (Inl (Inl p))) \<Longrightarrow> summand p = Inr (t, q) \<Longrightarrow> tokens_left q \<le> tokens_left p"
  using grammar_left(4) by blast

lemma factor_left:
  "gdom (Inr (Inr (Inl p))) \<Longrightarrow> factor p = Inr (t, q) \<Longrightarrow> tokens_left q \<le> tokens_left p"
  using grammar_left(6) by blast

termination expr
  apply (relation "inv_image (less_than <*lex*> less_than)
                     (\<lambda>x. (tokens_left (call_state x), call_rank x))")
  apply (simp_all add: call_state_def call_rank_def)
  apply (auto dest!: consume_left_both summand_left factor_left)
  done

definition toplevel :: "Parser \<Rightarrow> error + tree" where
  "toplevel p =
     (case expr p of
        Inl e \<Rightarrow> Inl e
      | Inr (tm, p1) \<Rightarrow>
          (case expect eof p1 of
             Inl e \<Rightarrow> Inl e
           | Inr p2 \<Rightarrow> Inr tm))"

definition Parser_parse :: "Parser \<Rightarrow> error + tree" where
  "Parser_parse p = toplevel p"

definition parse :: "string \<Rightarrow> error + tree" where
  "parse c =
     (case new_Parser (tokenize c) of
        Inl e \<Rightarrow> Inl e
      | Inr p \<Rightarrow> Parser_parse p)"

subsection \<open>The complete token stream\<close>

text \<open>
  Draining the generator, as \<^verbatim>\<open>[...tokenize(code)]\<close> does: all tokens up to the end, or
  the error thrown on the way.
\<close>

function token_stream :: "generator \<Rightarrow> error + Token list" where
  "token_stream g =
     (case generator_next g of
        Inl e \<Rightarrow> Inl e
      | Inr (None, g') \<Rightarrow> Inr []
      | Inr (Some t, g') \<Rightarrow>
          (case token_stream g' of
             Inl e \<Rightarrow> Inl e
           | Inr ts \<Rightarrow> Inr (t # ts)))"
  by pat_completeness auto
termination token_stream
  by (relation "measure gen_left") (auto dest: generator_next_left)

subsection \<open>Notions used to state the claims\<close>

text \<open>
  The specification lists the kinds as: parentheses and the single-character operator and
  comma kinds first, then the bare value, then quoted text, then whitespace.
  \<open>LEXER_spec_order\<close> is the pattern table in that order, to be compared with
  \<^const>\<open>LEXER\<close>, where \<open>*\<close>, \<open>/\<close> and \<open>,\<close> come after quoted text.
\<close>

definition LEXER_spec_order :: "(token_type \<times> pattern) list" where
  "LEXER_spec_order =
     [(lparen, lit CHR ''(''),
      (rparen, lit CHR '')''),
      (plus_tok, lit CHR ''+''),
      (minus_tok, lit CHR ''-''),
      (times_tok, lit CHR ''*''),
      (divided, lit CHR ''/''),
      (comma, lit CHR '',''),
      (value_tok, many1 is_value_char),
      (quoted, quoted_pat),
      (whitespace, many1 is_space)]"

definition is_alnum :: "char \<Rightarrow> bool" where
  \<comment> \<open>\<^verbatim>\<open>[a-zA-Z0-9]\<close>\<close>
  "is_alnum c \<longleftrightarrow> is_alpha c \<or> in_range CHR ''0'' CHR ''9'' c"

text \<open>
  A generator in the middle of its loop: the body has not returned, and the pattern
  starts where the last token ended, inside the text.
\<close>

definition scanning :: "generator \<Rightarrow> bool" where
  "scanning g \<longleftrightarrow>
     \<not> finished g \<and> lastIndex g = expectedNextToken g \<and> expectedNextToken g \<le> length (code g)"

subsection \<open>Texts of known shape\<close>

text \<open>
  A text that the pattern takes as one bare value when it starts a token: characters of
  the class \<^verbatim>\<open>[a-zA-Z0-9:-]\<close>, the first of them not a hyphen.
\<close>

definition bare_value :: "string \<Rightarrow> bool" where
  "bare_value a \<longleftrightarrow> a \<noteq> [] \<and> list_all is_value_char a \<and> hd a \<noteq> CHR ''-''"

text \<open>The generator that has scanned the text \<open>pre\<close> and has \<open>rest\<close> before it.\<close>

definition gen_at :: "(token_type \<times> string) option \<Rightarrow> string \<Rightarrow> string \<Rightarrow> generator" where
  "gen_at v pre rest =
     \<lparr>code = pre @ rest, expectedNextToken = length pre, lastIndex = length pre,
      var_type_text = v, finished = False\<rparr>"

text \<open>The two tiers of binary operators.\<close>

definition additive :: "token_type \<Rightarrow> bool" where
  "additive k \<longleftrightarrow> k = plus_tok \<or> k = minus_tok"

definition multiplicative :: "token_type \<Rightarrow> bool" where
  "multiplicative k \<longleftrightarrow> k = times_tok \<or> k = divided"

section \<open>Properties of the scan\<close>

lemma search_later:
  "search s i = Some m \<Longrightarrow> alternation LEXER s = None \<Longrightarrow> i < index m"
proof (cases s)
  case Nil
  assume "search s i = Some m" with Nil show ?thesis by simp
next
  case (Cons c cs)
  assume a: "search s i = Some m" "alternation LEXER s = None"
  with Cons have "search cs (Suc i) = Some m" by simp
  from search_Some [OF this] show ?thesis by simp
qed

lemma search_here:
  assumes "alternation LEXER s = Some (k, n)"
  shows "search s i = Some (Match i (take n s) (groups_of k (take n s)))"
proof (cases s)
  case Nil
  with alternation_LEXER_bounds [OF assms] show ?thesis by auto
next
  case (Cons c cs)
  with assms show ?thesis by simp
qed

lemma search_None_here: "search s i = None \<Longrightarrow> s \<noteq> [] \<Longrightarrow> alternation LEXER s = None"
  by (cases s) (auto split: option.splits)

lemma scanning_next:
  "generator_next g = Inr (Some t, g') \<Longrightarrow> scanning g'"
  using generator_next_yield(2,3,5,8) [of g t g'] by (simp add: scanning_def)

lemma scanning_tokenize: "scanning (tokenize c)"
  by (simp add: scanning_def tokenize_def)

lemma generator_next_end:
  assumes "scanning g" "generator_next g = Inr (None, g')"
  shows "drop (expectedNextToken g) (code g) = []"
  using assms
  by (auto simp: generator_next_def scanning_def Let_def split: option.splits if_splits)

lemma token_stream_covers:
  "scanning g \<Longrightarrow> token_stream g = Inr ts \<Longrightarrow>
     concat (map tok_text ts) = drop (expectedNextToken g) (code g)"
proof (induction g arbitrary: ts rule: token_stream.induct)
  case (1 g)
  from "1.prems"(2) obtain nxt g' where nx: "generator_next g = Inr (nxt, g')"
    by (auto split: sum.splits)
  show ?case
  proof (cases nxt)
    case None
    with nx "1.prems" have "ts = []" by simp
    with generator_next_end [OF "1.prems"(1)] nx None show ?thesis by simp
  next
    case (Some t)
    with nx "1.prems"(2) obtain ts' where ts': "token_stream g' = Inr ts'" "ts = t # ts'"
      by (auto split: sum.splits)
    note y = generator_next_yield [OF nx [unfolded Some]]
    from "1.IH" [OF nx refl Some scanning_next [OF nx [unfolded Some]] ts'(1)]
    have "concat (map tok_text ts') = drop (expectedNextToken g') (code g')" .
    with y(3,6) have "concat (map tok_text ts')
        = drop (length (tok_text t)) (drop (expectedNextToken g) (code g))"
      by (simp add: add.commute)
    moreover have "tok_text t @ drop (length (tok_text t)) (drop (expectedNextToken g) (code g))
        = drop (expectedNextToken g) (code g)"
      using y(9) append_take_drop_id [of "length (tok_text t)" "drop (expectedNextToken g) (code g)"]
      by simp
    ultimately show ?thesis by (simp add: ts'(2))
  qed
qed

lemma generator_next_throws:
  assumes "scanning g" "generator_next g = Inl e"
  shows "expectedNextToken g < length (code g) \<and>
         alternation LEXER (drop (expectedNextToken g) (code g)) = None \<and>
         (e = Error (''Unexpected token '' @ [code g ! expectedNextToken g]) \<or>
          e = Error (''Unexpected token end '' @ [code g ! expectedNextToken g]))"
proof -
  from assms(1) have nf: "\<not> finished g" and li: "lastIndex g = expectedNextToken g"
    and le: "expectedNextToken g \<le> length (code g)" by (simp_all add: scanning_def)
  let ?s = "drop (expectedNextToken g) (code g)"
  show ?thesis
  proof (cases "LEXER_exec (code g) (lastIndex g)")
    case None
    with assms(2) nf have ne: "expectedNextToken g \<noteq> length (code g)"
      by (auto simp: generator_next_def split: if_splits)
    with le have lt: "expectedNextToken g < length (code g)" by simp
    then have "?s \<noteq> []" by simp
    moreover from None li have "search ?s (expectedNextToken g) = None"
      by (simp add: LEXER_exec_def)
    ultimately have "alternation LEXER ?s = None" using search_None_here by blast
    moreover from None assms(2) nf ne lt
    have "e = Error (''Unexpected token end '' @ [code g ! expectedNextToken g])"
      by (simp add: generator_next_def charAt_def)
    ultimately show ?thesis using lt by simp
  next
    case (Some m)
    then have se: "search ?s (expectedNextToken g) = Some m" using li
      by (simp add: LEXER_exec_def)
    note f = LEXER_exec_Some [OF Some]
    from f(5) obtain k where fg: "first_group (groups m) = Some (k, matched m)" by blast
    have ix: "index m \<noteq> expectedNextToken g"
    proof
      assume "index m = expectedNextToken g"
      with Some assms(2) nf fg show False by (simp add: generator_next_def)
    qed
    from f(1,2,3) li ix have lt: "expectedNextToken g < length (code g)" by linarith
    have "alternation LEXER ?s = None"
    proof (cases "alternation LEXER ?s")
      case None' : None
      then show ?thesis .
    next
      case (Some kn)
      obtain k' n' where "kn = (k', n')" by (cases kn)
      with Some search_here [of ?s k' n' "expectedNextToken g"] se
      have "index m = expectedNextToken g" by auto
      with ix show ?thesis by simp
    qed
    moreover from Some assms(2) nf ix lt
    have "e = Error (''Unexpected token '' @ [code g ! expectedNextToken g])"
      by (simp add: generator_next_def charAt_def)
    ultimately show ?thesis using lt by simp
  qed
qed

lemma token_stream_throws:
  "scanning g \<Longrightarrow> token_stream g = Inl e \<Longrightarrow>
     \<exists>i. i < length (code g) \<and> alternation LEXER (drop i (code g)) = None \<and>
         (e = Error (''Unexpected token '' @ [code g ! i]) \<or>
          e = Error (''Unexpected token end '' @ [code g ! i]))"
proof (induction g rule: token_stream.induct)
  case (1 g)
  show ?case
  proof (cases "generator_next g")
    case (Inl e')
    with "1.prems"(2) have "e' = e" by simp
    with generator_next_throws [OF "1.prems"(1)] Inl show ?thesis by blast
  next
    case (Inr r)
    obtain nxt g' where r: "r = (nxt, g')" by (cases r)
    from Inr r "1.prems"(2) obtain t where t: "nxt = Some t"
      by (cases nxt) auto
    with Inr r "1.prems"(2) have "token_stream g' = Inl e"
      by (auto split: sum.splits)
    from "1.IH" [OF Inr r [symmetric] t scanning_next this] Inr r t
    obtain i where "i < length (code g')" "alternation LEXER (drop i (code g')) = None"
      "e = Error (''Unexpected token '' @ [code g' ! i]) \<or>
       e = Error (''Unexpected token end '' @ [code g' ! i])" by blast
    moreover have "code g' = code g" using generator_next_yield(3) Inr r t by blast
    ultimately show ?thesis by auto
  qed
qed

lemma many1_Cons: "many1 P (c # cs) = (if P c then Some (Suc (length (takeWhile P cs))) else None)"
  by (simp add: many1_def)

lemma value_char_not_op:
  "is_value_char c \<Longrightarrow> c \<noteq> CHR ''*'' \<and> c \<noteq> CHR ''/'' \<and> c \<noteq> CHR '','' \<and> c \<noteq> CHR 0x22"
  by (auto simp: is_value_char_def is_alpha_def in_range_def)

lemma alternation_spec_order: "alternation LEXER_spec_order s = alternation LEXER s"
proof (cases s)
  case Nil
  then show ?thesis by (simp add: LEXER_spec_order_def LEXER_def lit_def many1_def quoted_pat_def)
next
  case (Cons c cs)
  have l: "\<And>x. lit x (c # cs) = (if c = x then Some 1 else None)" by (simp add: lit_def)
  have q: "c \<noteq> CHR 0x22 \<Longrightarrow> quoted_pat (c # cs) = None" by (simp add: quoted_pat_def)
  show ?thesis
  proof (cases "is_value_char c")
    case True
    with value_char_not_op [of c] show ?thesis
      by (simp add: Cons LEXER_spec_order_def LEXER_def l many1_Cons)
  next
    case False
    show ?thesis
    proof (cases "c = CHR 0x22")
      case True
      then show ?thesis
        by (simp add: Cons LEXER_spec_order_def LEXER_def lit_def many1_Cons is_value_char_def
            is_alpha_def in_range_def split: option.split)
    next
      case False' : False
      with False q show ?thesis
        by (simp add: Cons LEXER_spec_order_def LEXER_def l many1_Cons)
    qed
  qed
qed

lemma alternation_first:
  "alternation ps s = Some (k, n) \<Longrightarrow>
     \<exists>pre p post. ps = pre @ (k, p) # post \<and> p s = Some n \<and> (\<forall>q \<in> set pre. snd q s = None)"
proof (induction ps)
  case Nil
  then show ?case by simp
next
  case (Cons a ps)
  obtain k0 p0 where a: "a = (k0, p0)" by (cases a)
  show ?case
  proof (cases "p0 s")
    case None
    with Cons.prems a have "alternation ps s = Some (k, n)" by simp
    from Cons.IH [OF this] obtain pre p post where h: "ps = pre @ (k, p) # post" "p s = Some n"
      "\<forall>q \<in> set pre. snd q s = None" by blast
    have "a # ps = (a # pre) @ (k, p) # post" using h(1) by simp
    moreover have "\<forall>q \<in> set (a # pre). snd q s = None" using h(3) None a by simp
    ultimately show ?thesis using h(2) by blast
  next
    case (Some m)
    with Cons.prems a have e: "k0 = k" "m = n" by simp_all
    have "a # ps = [] @ (k, p0) # ps" using a e by simp
    moreover have "\<forall>q \<in> set []. snd q s = None" by simp
    ultimately show ?thesis using Some e by blast
  qed
qed

lemma value_char_not_punct:
  "is_value_char c \<Longrightarrow> c \<noteq> CHR ''('' \<and> c \<noteq> CHR '')'' \<and> c \<noteq> CHR ''+''"
  by (auto simp: is_value_char_def is_alpha_def in_range_def)

lemma alnum_value_char: "is_alnum c \<Longrightarrow> is_value_char c \<and> c \<noteq> CHR ''-''"
  by (auto simp: is_alnum_def is_value_char_def is_alpha_def in_range_def)

lemma alternation_first_conv:
  "ps = pre @ (k, p) # post \<Longrightarrow> p s = Some n \<Longrightarrow> \<forall>q \<in> set pre. snd q s = None \<Longrightarrow>
     alternation ps s = Some (k, n)"
proof (induction pre arbitrary: ps)
  case Nil
  then show ?case by simp
next
  case (Cons a pre)
  obtain k0 p0 where a: "a = (k0, p0)" by (cases a)
  from Cons.prems(3) a have "p0 s = None" by simp
  moreover from Cons.IH [OF refl Cons.prems(2)] Cons.prems(3)
  have "alternation (pre @ (k, p) # post) s = Some (k, n)" by simp
  ultimately show ?case using Cons.prems(1) a by simp
qed

section \<open>Scanning a text of known shape\<close>

text \<open>
  The rules below let the simplifier run the generator and the parser on a text whose
  bare values are variables.
\<close>

lemma tokenize_gen_at: "tokenize c = gen_at None [] c"
  by (simp add: tokenize_def gen_at_def)

lemma next_gen_at:
  assumes "alternation LEXER s = Some (k, n)"
  shows "generator_next (gen_at v pre s) =
     Inr (Some (Token k (take n s)), gen_at (Some (k, take n s)) (pre @ take n s) (drop n s))"
proof -
  from alternation_LEXER_bounds [OF assms] have b: "0 < n" "n \<le> length s" "k \<in> fst ` set LEXER"
    by simp_all
  have "LEXER_exec (pre @ s) (length pre) =
      Some (Match (length pre) (take n s) (groups_of k (take n s)))"
    using search_here [OF assms, of "length pre"] by (simp add: LEXER_exec_def)
  moreover have "first_group (groups_of k (take n s)) = Some (k, take n s)"
    using b(3) by (rule first_group_groups_of)
  ultimately show ?thesis using b(2)
    by (simp add: generator_next_def gen_at_def min_def)
qed

lemma next_gen_at_end:
  "generator_next (gen_at v pre []) =
     Inr (None, \<lparr>code = pre, expectedNextToken = length pre, lastIndex = 0,
                 var_type_text = v, finished = True\<rparr>)"
  by (simp add: generator_next_def gen_at_def LEXER_exec_def)

lemma next_finished:
  "generator_next \<lparr>code = c, expectedNextToken = e, lastIndex = l,
                 var_type_text = v, finished = True\<rparr> =
     Inr (None, \<lparr>code = c, expectedNextToken = e, lastIndex = l,
                 var_type_text = v, finished = True\<rparr>)"
  by (simp add: generator_next_def)

lemma alternation_LEXER_Cons:
  "alternation LEXER (c # cs) =
     (if c = CHR ''('' then Some (lparen, 1)
      else if c = CHR '')'' then Some (rparen, 1)
      else if c = CHR ''+'' then Some (plus_tok, 1)
      else if c = CHR ''-'' then Some (minus_tok, 1)
      else if is_value_char c then Some (value_tok, Suc (length (takeWhile is_value_char cs)))
      else case quoted_pat (c # cs) of
        Some n \<Rightarrow> Some (quoted, n)
      | None \<Rightarrow>
          if c = CHR ''*'' then Some (times_tok, 1)
          else if c = CHR ''/'' then Some (divided, 1)
          else if c = CHR '','' then Some (comma, 1)
          else if is_space c then Some (whitespace, Suc (length (takeWhile is_space cs)))
          else None)"
  by (simp add: LEXER_def lit_def many1_Cons split: option.split)

lemma value_char_not_space: "is_value_char c \<Longrightarrow> \<not> is_space c"
  by (auto simp: is_value_char_def is_alpha_def in_range_def is_space_def)

lemma bare_value_Cons:
  "bare_value a \<Longrightarrow> \<exists>c cs. a = c # cs \<and> is_value_char c \<and> c \<noteq> CHR ''-'' \<and>
      list_all is_value_char cs"
  by (cases a) (auto simp: bare_value_def)

lemma alternation_bare_value:
  assumes "bare_value a" "r = [] \<or> \<not> is_value_char (hd r)"
  shows "alternation LEXER (a @ r) = Some (value_tok, length a)"
proof -
  from bare_value_Cons [OF assms(1)] obtain c cs where a: "a = c # cs" "is_value_char c"
    "c \<noteq> CHR ''-''" "list_all is_value_char cs" by blast
  have "takeWhile is_value_char (cs @ r) = cs"
  proof (cases r)
    case Nil
    with a(4) show ?thesis by (simp add: list_all_iff)
  next
    case (Cons x xs)
    with assms(2) have "\<not> is_value_char x" by simp
    with a(4) Cons show ?thesis by (simp add: list_all_iff takeWhile_tail)
  qed
  with a value_char_not_punct [of c] show ?thesis
    by (simp add: alternation_LEXER_Cons)
qed

lemma space_run_before_bare_value:
  "bare_value a \<Longrightarrow> takeWhile is_space (a @ r) = []"
  using bare_value_Cons [of a] value_char_not_space by auto

lemma alternation_bare_value_end: "bare_value a \<Longrightarrow> alternation LEXER a = Some (value_tok, length a)"
  using alternation_bare_value [of a "[]"] by simp

lemma space_run_bare_value_end: "bare_value a \<Longrightarrow> takeWhile is_space a = []"
  using space_run_before_bare_value [of a "[]"] by simp

lemmas lex_rules = alternation_LEXER_Cons alternation_bare_value space_run_before_bare_value
  alternation_bare_value_end space_run_bare_value_end
  is_value_char_def is_alpha_def in_range_def is_space_def quoted_pat_def

lemmas parse_rules = parse_def new_Parser_def tokenize_gen_at next_gen_at
  next_gen_at_end next_finished Parser_parse_def toplevel_def consume_def expect_def set_add_def

text \<open>A bare value alone is one leaf.\<close>

lemma parse_bare_value: "bare_value s \<Longrightarrow> parse s = Inr (Str s)"
  by (simp add: parse_rules lex_rules)

lemma token_stream_bare_value:
  "bare_value s \<Longrightarrow> token_stream (tokenize s) = Inr [Token value_tok s]"
  by (simp add: tokenize_gen_at next_gen_at next_gen_at_end lex_rules)

lemma FUNCTION_NAME_bare_value: "FUNCTION_NAME f \<Longrightarrow> bare_value f"
  by (cases f) (auto simp: FUNCTION_NAME_def bare_value_def is_value_char_def list_all_iff
      is_alpha_def in_range_def)

section \<open>The claims\<close>

text \<open>
  C1: for a call whose argument list contains a comma, \<^verbatim>\<open>parse\<close> should parse an
  expression after each comma and return \<^verbatim>\<open>[name, arg1, arg2, ...]\<close>, so that
  \<^verbatim>\<open>parse("sum(A1, B2)")\<close> is \<^verbatim>\<open>["sum", "A1", "B2"]\<close>. The code does not: for every
  function name and every two bare values, once the comma is consumed \<^verbatim>\<open>arglist\<close>
  throws a \<^verbatim>\<open>ReferenceError\<close>. The call with one argument parses.
\<close>

theorem arglist_comma_throws_ReferenceError:
  assumes "FUNCTION_NAME f" "bare_value a" "bare_value b"
  shows "parse (f @ ''('' @ a @ '', '' @ b @ '')'') = Inl (ReferenceError ''expr'')
       \<and> parse (f @ ''('' @ a @ '')'') = Inr (Arr [Str f, Str a])"
  using assms FUNCTION_NAME_bare_value [OF assms(1)]
  by (simp add: parse_rules lex_rules)

theorem arglist_comma_throws_ReferenceError_witness:
  "FUNCTION_NAME ''sum'' \<and> bare_value ''A1'' \<and> bare_value ''B2''
   \<and> parse ''sum(A1, B2)'' = Inl (ReferenceError ''expr'')
   \<and> parse ''sum(A1)'' = Inr (Arr [Str ''sum'', Str ''A1''])"
proof -
  have h: "FUNCTION_NAME ''sum''" "bare_value ''A1''" "bare_value ''B2''"
    by (simp_all add: FUNCTION_NAME_def bare_value_def is_value_char_def is_alpha_def
        in_range_def)
  from arglist_comma_throws_ReferenceError [OF h] h show ?thesis by simp
qed

text \<open>
  C2: when the token stream of a text completes, the texts of its tokens, in order, make
  up the text exactly, and their lengths add up to its length. Otherwise the stream
  ends in a lex error, which names a character of the text at a position where no
  kind matches.
\<close>

theorem tokenizer_coverage:
  "(\<forall>ts. token_stream (tokenize c) = Inr ts \<longrightarrow>
       concat (map tok_text ts) = c \<and> sum_list (map (\<lambda>t. length (tok_text t)) ts) = length c)
   \<and> (\<forall>e. token_stream (tokenize c) = Inl e \<longrightarrow>
        (\<exists>i<length c. alternation LEXER (drop i c) = None \<and>
           (e = Error (''Unexpected token '' @ [c ! i]) \<or>
            e = Error (''Unexpected token end '' @ [c ! i]))))"
proof (intro conjI allI impI)
  fix ts assume a: "token_stream (tokenize c) = Inr ts"
  from token_stream_covers [OF scanning_tokenize a]
  show cc: "concat (map tok_text ts) = c" by (simp add: tokenize_def)
  have "length (concat (map tok_text ts)) = sum_list (map (\<lambda>t. length (tok_text t)) ts)"
    by (simp add: length_concat comp_def)
  with cc show "sum_list (map (\<lambda>t. length (tok_text t)) ts) = length c" by simp
next
  fix e assume "token_stream (tokenize c) = Inl e"
  from token_stream_throws [OF scanning_tokenize this]
  show "\<exists>i<length c. alternation LEXER (drop i c) = None \<and>
           (e = Error (''Unexpected token '' @ [c ! i]) \<or>
            e = Error (''Unexpected token end '' @ [c ! i]))"
    by (simp add: tokenize_def)
qed

theorem tokenizer_coverage_witness:
  "token_stream (tokenize ''1 + 2'') =
     Inr [Token value_tok ''1'', Token whitespace '' '', Token plus_tok ''+'',
          Token whitespace '' '', Token value_tok ''2'']
   \<and> concat (map tok_text [Token value_tok ''1'', Token whitespace '' '', Token plus_tok ''+'',
          Token whitespace '' '', Token value_tok ''2'']) = ''1 + 2''
   \<and> token_stream (tokenize ''1 $ 2'') = Inl (Error ''Unexpected token $'')
   \<and> (\<exists>i<length ''1 $ 2''. alternation LEXER (drop i ''1 $ 2'') = None \<and>
         (Error ''Unexpected token $'' = Error (''Unexpected token '' @ [''1 $ 2'' ! i]) \<or>
          Error ''Unexpected token $'' = Error (''Unexpected token end '' @ [''1 $ 2'' ! i])))"
proof -
  have a: "token_stream (tokenize ''1 + 2'') =
     Inr [Token value_tok ''1'', Token whitespace '' '', Token plus_tok ''+'',
          Token whitespace '' '', Token value_tok ''2'']"
    by code_simp
  have b: "token_stream (tokenize ''1 $ 2'') = Inl (Error ''Unexpected token $'')"
    by code_simp
  from tokenizer_coverage [of "''1 + 2''"] a
  have "concat (map tok_text [Token value_tok ''1'', Token whitespace '' '', Token plus_tok ''+'',
          Token whitespace '' '', Token value_tok ''2'']) = ''1 + 2''"
    by blast
  moreover from tokenizer_coverage [of "''1 $ 2''"] b
  have "\<exists>i<length ''1 $ 2''. alternation LEXER (drop i ''1 $ 2'') = None \<and>
         (Error ''Unexpected token $'' = Error (''Unexpected token '' @ [''1 $ 2'' ! i]) \<or>
          Error ''Unexpected token $'' = Error (''Unexpected token end '' @ [''1 $ 2'' ! i]))"
    by blast
  ultimately show ?thesis using a b by blast
qed

text \<open>
  C3 as stated: at a lex gap the error names the offending character and its offset, so
  that \<^verbatim>\<open>parse("1 $ 2")\<close> fails identifying \<open>$\<close> at offset 2. The message has the
  character only: a gap at offset 2 and a gap at offset 3 raise the same error.
\<close>

theorem lex_gap_message_without_offset:
  "parse ''1 $ 2'' = Inl (Error ''Unexpected token $'')
   \<and> parse ''12 $ 2'' = Inl (Error ''Unexpected token $'')"
  by code_simp

text \<open>
  C3, amended: when no kind matches at the scan position, \<^verbatim>\<open>next()\<close> throws an error
  whose message is \<^verbatim>\<open>Unexpected token\<close> and the offending character, with \<^verbatim>\<open>end\<close>
  before the character when no later position matches either; the offset is not part
  of the message. \<^verbatim>\<open>parse("1 $ 2")\<close> fails with \<^verbatim>\<open>Unexpected token $\<close>.
\<close>

theorem lex_gap_names_character:
  "(scanning g \<and> expectedNextToken g < length (code g) \<and>
    alternation LEXER (drop (expectedNextToken g) (code g)) = None \<longrightarrow>
      generator_next g =
        Inl (Error ((if LEXER_exec (code g) (lastIndex g) = None then ''Unexpected token end ''
                     else ''Unexpected token '') @ [code g ! expectedNextToken g])))
   \<and> parse ''1 $ 2'' = Inl (Error ''Unexpected token $'')"
proof (intro conjI impI)
  assume a: "scanning g \<and> expectedNextToken g < length (code g) \<and>
    alternation LEXER (drop (expectedNextToken g) (code g)) = None"
  then have nf: "\<not> finished g" and li: "lastIndex g = expectedNextToken g"
    by (simp_all add: scanning_def)
  show "generator_next g =
        Inl (Error ((if LEXER_exec (code g) (lastIndex g) = None then ''Unexpected token end ''
                     else ''Unexpected token '') @ [code g ! expectedNextToken g]))"
  proof (cases "LEXER_exec (code g) (lastIndex g)")
    case None
    with a nf show ?thesis by (simp add: generator_next_def charAt_def)
  next
    case (Some m)
    then have "search (drop (expectedNextToken g) (code g)) (expectedNextToken g) = Some m"
      using li by (simp add: LEXER_exec_def)
    with a have "index m \<noteq> expectedNextToken g" using search_later by fastforce
    with Some a nf show ?thesis by (simp add: generator_next_def charAt_def)
  qed
next
  show "parse ''1 $ 2'' = Inl (Error ''Unexpected token $'')" by code_simp
qed

theorem lex_gap_names_character_witness:
  "generator_next \<lparr>code = ''1 $ 2'', expectedNextToken = 2, lastIndex = 2,
      var_type_text = Some (whitespace, '' ''), finished = False\<rparr>
     = Inl (Error ''Unexpected token $'')
   \<and> generator_next \<lparr>code = ''1 $'', expectedNextToken = 2, lastIndex = 2,
      var_type_text = Some (whitespace, '' ''), finished = False\<rparr>
     = Inl (Error ''Unexpected token end $'')"
proof -
  let ?g = "\<lparr>code = ''1 $ 2'', expectedNextToken = 2, lastIndex = 2,
      var_type_text = Some (whitespace, '' ''), finished = False\<rparr>"
  let ?h = "\<lparr>code = ''1 $'', expectedNextToken = 2, lastIndex = 2,
      var_type_text = Some (whitespace, '' ''), finished = False\<rparr>"
  have g: "scanning ?g \<and> expectedNextToken ?g < length (code ?g) \<and>
    alternation LEXER (drop (expectedNextToken ?g) (code ?g)) = None"
    by (simp add: scanning_def LEXER_def lit_def many1_def quoted_pat_def is_value_char_def
        is_alpha_def in_range_def is_space_def)
  have h: "scanning ?h \<and> expectedNextToken ?h < length (code ?h) \<and>
    alternation LEXER (drop (expectedNextToken ?h) (code ?h)) = None"
    by (simp add: scanning_def LEXER_def lit_def many1_def quoted_pat_def is_value_char_def
        is_alpha_def in_range_def is_space_def)
  have eg: "LEXER_exec (code ?g) (lastIndex ?g) \<noteq> None" by code_simp
  have eh: "LEXER_exec (code ?h) (lastIndex ?h) = None" by code_simp
  from lex_gap_names_character [of ?g] g eg
  have "generator_next ?g = Inl (Error ''Unexpected token $'')" by simp
  moreover from lex_gap_names_character [of ?h] h eh
  have "generator_next ?h = Inl (Error ''Unexpected token end $'')" by simp
  ultimately show ?thesis by simp
qed

text \<open>
  C4: at each scan position the token produced is of the first kind, in the order
  parentheses, single-character operators and comma, bare value, quoted text,
  whitespace, whose pattern matches there, and its text is that match. The theorem
  reads the order from \<open>LEXER_spec_order\<close>; the tokenizer itself runs \<^const>\<open>LEXER\<close>, which
  lists \<open>*\<close>, \<open>/\<close> and \<open>,\<close> after quoted text, and yields the same token.
\<close>

theorem token_is_first_match_in_spec_order:
  assumes "scanning g"
  shows "(\<exists>g'. generator_next g = Inr (Some (Token k txt), g')) \<longleftrightarrow>
         (\<exists>pre p post n.
            LEXER_spec_order = pre @ (k, p) # post \<and>
            (\<forall>q \<in> set pre. snd q (drop (expectedNextToken g) (code g)) = None) \<and>
            p (drop (expectedNextToken g) (code g)) = Some n \<and>
            txt = take n (drop (expectedNextToken g) (code g)))"
proof
  let ?s = "drop (expectedNextToken g) (code g)"
  assume "\<exists>g'. generator_next g = Inr (Some (Token k txt), g')"
  then obtain g' where "generator_next g = Inr (Some (Token k txt), g')" ..
  note y = generator_next_yield [OF this]
  from y(10) have "alternation LEXER_spec_order ?s = Some (k, length txt)"
    by (simp add: alternation_spec_order)
  from alternation_first [OF this] obtain pre p post where
    "LEXER_spec_order = pre @ (k, p) # post" "p ?s = Some (length txt)"
    "\<forall>q \<in> set pre. snd q ?s = None" by blast
  moreover from y(9) have "txt = take (length txt) ?s" by simp
  ultimately show "\<exists>pre p post n.
            LEXER_spec_order = pre @ (k, p) # post \<and>
            (\<forall>q \<in> set pre. snd q ?s = None) \<and> p ?s = Some n \<and> txt = take n ?s"
    by blast
next
  let ?s = "drop (expectedNextToken g) (code g)"
  assume "\<exists>pre p post n.
            LEXER_spec_order = pre @ (k, p) # post \<and>
            (\<forall>q \<in> set pre. snd q ?s = None) \<and> p ?s = Some n \<and> txt = take n ?s"
  then obtain pre p post n where h: "LEXER_spec_order = pre @ (k, p) # post"
    "\<forall>q \<in> set pre. snd q ?s = None" "p ?s = Some n" "txt = take n ?s" by blast
  from alternation_first_conv [OF h(1) h(3) h(2)]
  have a: "alternation LEXER ?s = Some (k, n)" by (simp add: alternation_spec_order)
  from assms have nf: "\<not> finished g" and li: "lastIndex g = expectedNextToken g"
    by (simp_all add: scanning_def)
  from search_here [OF a, of "expectedNextToken g"] li h(4)
  have e: "LEXER_exec (code g) (lastIndex g)
      = Some (Match (expectedNextToken g) txt (groups_of k txt))"
    by (simp add: LEXER_exec_def)
  from alternation_LEXER_bounds [OF a] have "first_group (groups_of k txt) = Some (k, txt)"
    by (simp add: first_group_groups_of)
  with e nf show "\<exists>g'. generator_next g = Inr (Some (Token k txt), g')"
    by (simp add: generator_next_def)
qed

theorem token_is_first_match_in_spec_order_witness:
  "scanning (tokenize ''*2'')
   \<and> generator_next (tokenize ''*2'') =
       Inr (Some (Token times_tok ''*''),
            \<lparr>code = ''*2'', expectedNextToken = 1, lastIndex = 1,
             var_type_text = Some (times_tok, ''*''), finished = False\<rparr>)
   \<and> (\<exists>pre p post n.
         LEXER_spec_order = pre @ (times_tok, p) # post \<and>
         list_all (\<lambda>q. snd q ''*2'' = None) pre \<and> p ''*2'' = Some n \<and> ''*'' = take n ''*2'')"
proof -
  have s: "scanning (tokenize ''*2'')" by (rule scanning_tokenize)
  have n: "generator_next (tokenize ''*2'') =
       Inr (Some (Token times_tok ''*''),
            \<lparr>code = ''*2'', expectedNextToken = 1, lastIndex = 1,
             var_type_text = Some (times_tok, ''*''), finished = False\<rparr>)"
    by code_simp
  then have "\<exists>g'. generator_next (tokenize ''*2'') = Inr (Some (Token times_tok ''*''), g')"
    by blast
  with token_is_first_match_in_spec_order [OF s, of times_tok "''*''"]
  have "\<exists>pre p post n.
         LEXER_spec_order = pre @ (times_tok, p) # post \<and>
         (\<forall>q \<in> set pre. snd q ''*2'' = None) \<and> p ''*2'' = Some n \<and> ''*'' = take n ''*2''"
    by (simp add: tokenize_def)
  then have "\<exists>pre p post n.
         LEXER_spec_order = pre @ (times_tok, p) # post \<and>
         list_all (\<lambda>q. snd q ''*2'' = None) pre \<and> p ''*2'' = Some n \<and> ''*'' = take n ''*2''"
    by (simp add: list_all_iff)
  with s n show ?thesis by blast
qed

text \<open>
  C5 as stated: for a text that begins with a hyphen followed by digits, such as
  \<^verbatim>\<open>-5\<close>, the bare-value pattern absorbs the hyphen, the text is one bare-value token
  and parses as one leaf. In the pattern the kind \<^verbatim>\<open>minus\<close> stands before the bare
  value: the hyphen is a token of its own and the parse fails.
\<close>

theorem leading_hyphen_is_not_absorbed:
  "generator_next (tokenize ''-5'') =
     Inr (Some (Token minus_tok ''-''),
          \<lparr>code = ''-5'', expectedNextToken = 1, lastIndex = 1,
           var_type_text = Some (minus_tok, ''-''), finished = False\<rparr>)
   \<and> parse ''-5'' =
       Inl (Error (''Expected one of: a literal value, a quoted string, (; got ''
                   @ [CHR 0x27, CHR ''-'', CHR 0x27]))"
  by code_simp

text \<open>
  C5, amended: the grammar has no production for a unary minus: \<^verbatim>\<open>factor\<close> fails on a
  \<^verbatim>\<open>minus\<close> token. For a text that begins with a hyphen the hyphen alone is the first
  token, of kind \<^verbatim>\<open>minus\<close>, whatever follows, so the parse fails with the
  unexpected-token error that found \<^verbatim>\<open>'-'\<close>. (A hyphen is absorbed into a bare value
  only behind another bare-value character, see C10.)
\<close>

theorem leading_hyphen_is_minus_token:
  "(tok_type (cur p) = minus_tok \<longrightarrow>
      factor p =
        Inl (Error (''Expected one of: ''
                    @ join '', '' (map TOKEN_TYPES
                        (set_add lparen (set_add quoted (set_add value_tok (attemptedTypes p)))))
                    @ ''; got '' @ [CHR 0x27] @ tok_text (cur p) @ [CHR 0x27])))
   \<and> alternation LEXER (CHR ''-'' # s) = Some (minus_tok, 1)
   \<and> parse (CHR ''-'' # s) =
       Inl (Error (''Expected one of: a literal value, a quoted string, (; got ''
                   @ [CHR 0x27, CHR ''-'', CHR 0x27]))"
proof (intro conjI impI)
  assume "tok_type (cur p) = minus_tok"
  then show "factor p =
        Inl (Error (''Expected one of: ''
                    @ join '', '' (map TOKEN_TYPES
                        (set_add lparen (set_add quoted (set_add value_tok (attemptedTypes p)))))
                    @ ''; got '' @ [CHR 0x27] @ tok_text (cur p) @ [CHR 0x27]))"
    by (simp add: consume_def throwUnexpectedToken_def)
next
  show "alternation LEXER (CHR ''-'' # s) = Some (minus_tok, 1)"
    by (simp add: LEXER_def lit_def)
next
  show "parse (CHR ''-'' # s) =
       Inl (Error (''Expected one of: a literal value, a quoted string, (; got ''
                   @ [CHR 0x27, CHR ''-'', CHR 0x27]))"
    by (simp add: parse_def new_Parser_def tokenize_def generator_next_def LEXER_exec_def
        LEXER_def lit_def groups_of_def Parser_parse_def toplevel_def consume_def
        throwUnexpectedToken_def set_add_def TOKEN_TYPES_def)
qed

theorem leading_hyphen_is_minus_token_witness:
  "factor \<lparr>tokenIter = \<lparr>code = ''1 - -5'', expectedNextToken = 5, lastIndex = 5,
                         var_type_text = Some (minus_tok, ''-''), finished = False\<rparr>,
           attemptedTypes = [], cur = Token minus_tok ''-''\<rparr>
     = Inl (Error (''Expected one of: a literal value, a quoted string, (; got ''
                   @ [CHR 0x27, CHR ''-'', CHR 0x27]))
   \<and> parse ''-5'' =
       Inl (Error (''Expected one of: a literal value, a quoted string, (; got ''
                   @ [CHR 0x27, CHR ''-'', CHR 0x27]))"
  using leading_hyphen_is_minus_token
    [of "\<lparr>tokenIter = \<lparr>code = ''1 - -5'', expectedNextToken = 5, lastIndex = 5,
                         var_type_text = Some (minus_tok, ''-''), finished = False\<rparr>,
           attemptedTypes = [], cur = Token minus_tok ''-''\<rparr>" "''5''"]
  by (simp add: set_add_def TOKEN_TYPES_def)

text \<open>
  C6: \<open>+\<close> and \<open>-\<close> bind looser than \<open>*\<close> and \<open>/\<close>. For bare values \<open>a\<close>, \<open>b\<close>, \<open>c\<close>, an
  additive operator \<open>lo\<close> and a multiplicative operator \<open>hi\<close>, the formula
  \<open>a lo b hi c\<close> parses to \<open>[lo, a, [hi, b, c]]\<close> and \<open>a hi b lo c\<close> to
  \<open>[lo, [hi, a, b], c]\<close>. In particular \<^verbatim>\<open>parse("1 + 2 * 3")\<close> returns
  \<^verbatim>\<open>["+", "1", ["*", "2", "3"]]\<close>.
\<close>

theorem precedence_sum_looser_than_product:
  assumes "bare_value a" "bare_value b" "bare_value c" "additive lo" "multiplicative hi"
  shows "parse (a @ '' '' @ TOKEN_TYPES lo @ '' '' @ b @ '' '' @ TOKEN_TYPES hi @ '' '' @ c)
           = Inr (Arr [Str (TOKEN_TYPES lo), Str a, Arr [Str (TOKEN_TYPES hi), Str b, Str c]])
       \<and> parse (a @ '' '' @ TOKEN_TYPES hi @ '' '' @ b @ '' '' @ TOKEN_TYPES lo @ '' '' @ c)
           = Inr (Arr [Str (TOKEN_TYPES lo), Arr [Str (TOKEN_TYPES hi), Str a, Str b], Str c])"
proof -
  from assms(4,5) consider "lo = plus_tok" "hi = times_tok" | "lo = plus_tok" "hi = divided"
    | "lo = minus_tok" "hi = times_tok" | "lo = minus_tok" "hi = divided"
    by (auto simp: additive_def multiplicative_def)
  then show ?thesis
  proof cases
    case 1
    with assms(1-3) show ?thesis by (simp add: TOKEN_TYPES_def parse_rules lex_rules)
  next
    case 2
    with assms(1-3) show ?thesis by (simp add: TOKEN_TYPES_def parse_rules lex_rules)
  next
    case 3
    with assms(1-3) show ?thesis by (simp add: TOKEN_TYPES_def parse_rules lex_rules)
  next
    case 4
    with assms(1-3) show ?thesis by (simp add: TOKEN_TYPES_def parse_rules lex_rules)
  qed
qed

theorem precedence_sum_looser_than_product_witness:
  "bare_value ''1'' \<and> bare_value ''2'' \<and> bare_value ''3'' \<and> additive plus_tok
   \<and> multiplicative times_tok
   \<and> parse ''1 + 2 * 3'' = Inr (Arr [Str ''+'', Str ''1'', Arr [Str ''*'', Str ''2'', Str ''3'']])
   \<and> parse ''1 * 2 + 3'' = Inr (Arr [Str ''+'', Arr [Str ''*'', Str ''1'', Str ''2''], Str ''3''])"
proof -
  have h: "bare_value ''1''" "bare_value ''2''" "bare_value ''3''" "additive plus_tok"
    "multiplicative times_tok"
    by (simp_all add: bare_value_def is_value_char_def is_alpha_def in_range_def additive_def
        multiplicative_def)
  from precedence_sum_looser_than_product [OF h] h show ?thesis by (simp add: TOKEN_TYPES_def)
qed

text \<open>
  C7: binary operators of one tier associate to the left. For bare values \<open>a\<close>, \<open>b\<close>,
  \<open>c\<close> and operators \<open>k1\<close>, \<open>k2\<close> of the same tier, the formula \<open>a k1 b k2 c\<close> parses to
  \<open>[k2, [k1, a, b], c]\<close>. In particular \<^verbatim>\<open>parse("1 - 2 - 3")\<close> returns
  \<^verbatim>\<open>["-", ["-", "1", "2"], "3"]\<close>.
\<close>

theorem left_associativity:
  assumes "bare_value a" "bare_value b" "bare_value c"
    and "additive k1 \<and> additive k2 \<or> multiplicative k1 \<and> multiplicative k2"
  shows "parse (a @ '' '' @ TOKEN_TYPES k1 @ '' '' @ b @ '' '' @ TOKEN_TYPES k2 @ '' '' @ c)
           = Inr (Arr [Str (TOKEN_TYPES k2), Arr [Str (TOKEN_TYPES k1), Str a, Str b], Str c])"
proof -
  from assms(4) consider "k1 = plus_tok" "k2 = plus_tok" | "k1 = plus_tok" "k2 = minus_tok"
    | "k1 = minus_tok" "k2 = plus_tok" | "k1 = minus_tok" "k2 = minus_tok"
    | "k1 = times_tok" "k2 = times_tok" | "k1 = times_tok" "k2 = divided"
    | "k1 = divided" "k2 = times_tok" | "k1 = divided" "k2 = divided"
    by (auto simp: additive_def multiplicative_def)
  then show ?thesis
  proof cases
    case 1
    with assms(1-3) show ?thesis by (simp add: TOKEN_TYPES_def parse_rules lex_rules)
  next
    case 2
    with assms(1-3) show ?thesis by (simp add: TOKEN_TYPES_def parse_rules lex_rules)
  next
    case 3
    with assms(1-3) show ?thesis by (simp add: TOKEN_TYPES_def parse_rules lex_rules)
  next
    case 4
    with assms(1-3) show ?thesis by (simp add: TOKEN_TYPES_def parse_rules lex_rules)
  next
    case 5
    with assms(1-3) show ?thesis by (simp add: TOKEN_TYPES_def parse_rules lex_rules)
  next
    case 6
    with assms(1-3) show ?thesis by (simp add: TOKEN_TYPES_def parse_rules lex_rules)
  next
    case 7
    with assms(1-3) show ?thesis by (simp add: TOKEN_TYPES_def parse_rules lex_rules)
  next
    case 8
    with assms(1-3) show ?thesis by (simp add: TOKEN_TYPES_def parse_rules lex_rules)
  qed
qed

theorem left_associativity_witness:
  "bare_value ''1'' \<and> bare_value ''2'' \<and> bare_value ''3''
   \<and> (additive minus_tok \<and> additive minus_tok
        \<or> multiplicative minus_tok \<and> multiplicative minus_tok)
   \<and> parse ''1 - 2 - 3'' = Inr (Arr [Str ''-'', Arr [Str ''-'', Str ''1'', Str ''2''], Str ''3''])"
proof -
  have h: "bare_value ''1''" "bare_value ''2''" "bare_value ''3''"
    "additive minus_tok \<and> additive minus_tok
       \<or> multiplicative minus_tok \<and> multiplicative minus_tok"
    by (simp_all add: bare_value_def is_value_char_def is_alpha_def in_range_def additive_def)
  from left_associativity [OF h] h show ?thesis by (simp add: TOKEN_TYPES_def)
qed

text \<open>
  C8: when the tokens end where a factor is required, the failure lists every kind
  attempted at that position (those tried before \<^verbatim>\<open>factor\<close> was entered, then the bare
  value, quoted text and \<open>(\<close>) and reports the end of the input as what was found.
  A bare value followed by a binary operator and nothing else fails so; in particular
  \<^verbatim>\<open>parse("1 +")\<close> fails naming a literal value, a quoted string and \<open>(\<close>, and found the
  end of the string.
\<close>

theorem premature_end_lists_attempted_kinds:
  "(tok_type (cur p) = eof \<longrightarrow>
      factor p =
        Inl (Error (''Expected one of: ''
                    @ join '', '' (map TOKEN_TYPES
                        (set_add lparen (set_add quoted (set_add value_tok (attemptedTypes p)))))
                    @ ''; got [end of string]'')))
   \<and> (bare_value a \<and> (additive k \<or> multiplicative k) \<longrightarrow>
        parse (a @ '' '' @ TOKEN_TYPES k) =
          Inl (Error
            ''Expected one of: a literal value, a quoted string, (; got [end of string]''))"
proof (intro conjI impI)
  assume "tok_type (cur p) = eof"
  then show "factor p =
        Inl (Error (''Expected one of: ''
                    @ join '', '' (map TOKEN_TYPES
                        (set_add lparen (set_add quoted (set_add value_tok (attemptedTypes p)))))
                    @ ''; got [end of string]''))"
    by (simp add: consume_def throwUnexpectedToken_def TOKEN_TYPES_def)
next
  assume a: "bare_value a \<and> (additive k \<or> multiplicative k)"
  then consider "k = plus_tok" | "k = minus_tok" | "k = times_tok" | "k = divided"
    by (auto simp: additive_def multiplicative_def)
  then show "parse (a @ '' '' @ TOKEN_TYPES k) =
          Inl (Error
            ''Expected one of: a literal value, a quoted string, (; got [end of string]'')"
  proof cases
    case 1
    with a show ?thesis
      by (simp add: TOKEN_TYPES_def parse_rules lex_rules throwUnexpectedToken_def)
  next
    case 2
    with a show ?thesis
      by (simp add: TOKEN_TYPES_def parse_rules lex_rules throwUnexpectedToken_def)
  next
    case 3
    with a show ?thesis
      by (simp add: TOKEN_TYPES_def parse_rules lex_rules throwUnexpectedToken_def)
  next
    case 4
    with a show ?thesis
      by (simp add: TOKEN_TYPES_def parse_rules lex_rules throwUnexpectedToken_def)
  qed
qed

theorem premature_end_lists_attempted_kinds_witness:
  "factor \<lparr>tokenIter = \<lparr>code = ''1 +'', expectedNextToken = 3, lastIndex = 0,
                         var_type_text = Some (plus_tok, ''+''), finished = True\<rparr>,
           attemptedTypes = [], cur = Token eof []\<rparr>
     = Inl (Error ''Expected one of: a literal value, a quoted string, (; got [end of string]'')
   \<and> bare_value ''1'' \<and> additive plus_tok
   \<and> parse ''1 +'' =
       Inl (Error ''Expected one of: a literal value, a quoted string, (; got [end of string]'')"
proof -
  have h: "bare_value ''1''" "additive plus_tok"
    by (simp_all add: bare_value_def is_value_char_def is_alpha_def in_range_def additive_def)
  from premature_end_lists_attempted_kinds
    [of "\<lparr>tokenIter = \<lparr>code = ''1 +'', expectedNextToken = 3, lastIndex = 0,
                         var_type_text = Some (plus_tok, ''+''), finished = True\<rparr>,
           attemptedTypes = [], cur = Token eof []\<rparr>" "''1''" plus_tok] h
  show ?thesis by (simp add: set_add_def TOKEN_TYPES_def)
qed

text \<open>
  C9: the quoted-text pattern needs at least one character between the double quotes,
  so it does not match at two adjacent double quotes, whatever follows them; \<^verbatim>\<open>parse\<close>
  on the text of just two double quotes raises a lex error instead of returning the
  empty leaf.
\<close>

theorem empty_quoted_string_is_lex_error:
  "quoted_pat (CHR 0x22 # CHR 0x22 # s) = None
   \<and> parse [CHR 0x22, CHR 0x22] = Inl (Error (''Unexpected token end '' @ [CHR 0x22]))"
proof
  show "quoted_pat (CHR 0x22 # CHR 0x22 # s) = None" by (simp add: quoted_pat_def)
  show "parse [CHR 0x22, CHR 0x22] = Inl (Error (''Unexpected token end '' @ [CHR 0x22]))"
    by code_simp
qed

text \<open>
  C10: a hyphen between two runs of letters and digits, with no whitespace around it,
  is absorbed into one bare-value token: the text is a single token and parses as a
  single leaf, not as a subtraction. \<^verbatim>\<open>parse("1-2")\<close> returns the leaf \<^verbatim>\<open>"1-2"\<close>.
\<close>

theorem hyphen_between_alnum_runs_is_one_leaf:
  assumes "a \<noteq> []" "list_all is_alnum a" "list_all is_alnum b"
  shows "token_stream (tokenize (a @ ''-'' @ b)) = Inr [Token value_tok (a @ ''-'' @ b)]
       \<and> parse (a @ ''-'' @ b) = Inr (Str (a @ ''-'' @ b))"
proof -
  from assms(1) obtain x xs where a: "a = x # xs" by (cases a) auto
  with assms(2) have "is_alnum x" by simp
  then have "is_value_char x" "x \<noteq> CHR ''-''" using alnum_value_char by blast+
  moreover have "list_all is_value_char (a @ ''-'' @ b)"
    using assms(2,3) alnum_value_char by (auto simp: list_all_iff is_value_char_def)
  ultimately have "bare_value (a @ ''-'' @ b)" by (simp add: bare_value_def a)
  then show ?thesis using parse_bare_value token_stream_bare_value by blast
qed

theorem hyphen_between_alnum_runs_is_one_leaf_witness:
  "''1'' \<noteq> [] \<and> list_all is_alnum ''1'' \<and> list_all is_alnum ''2''
   \<and> token_stream (tokenize ''1-2'') = Inr [Token value_tok ''1-2'']
   \<and> parse ''1-2'' = Inr (Str ''1-2'')
   \<and> parse ''1-2'' \<noteq> Inr (Arr [Str ''-'', Str ''1'', Str ''2''])"
  using hyphen_between_alnum_runs_is_one_leaf [of "''1''" "''2''"]
  by (simp add: is_alnum_def is_alpha_def in_range_def)

end
